theory Spec2Isabelle
  imports Main "HOL-Library.Monad_Syntax" "HOL-Library.Multiset"
begin

section \<open>AVL nodes (class AVLNode of datastructures/avltree.py)\<close>

text \<open>
  A reference of type \<open>Optional[AVLNode]\<close> is either Python's \<open>None\<close> (here \<open>Absent\<close>) or a
  node object with the fields \<open>_key\<close>, \<open>_value\<close>, \<open>_left\<close>, \<open>_right\<close> and \<open>_height\<close>.
  Nodes are owned by exactly one parent slot, so in-place mutation of a subtree is modelled
  by returning the new subtree. Heights are Python integers. Keys are compared with
  \<open><\<close>, \<open>>\<close> and \<open>==\<close>; they are taken from a linear order.

  An attribute access on \<open>None\<close> raises \<open>AttributeError\<close> in Python. Every function that can
  reach such an access returns an \<open>option\<close>, and \<open>None\<close> of that option is the raised error.
\<close>

datatype ('k, 'v) avlnode =
  Absent
  | AVLNode (key: 'k) (val: 'v) (left: "('k, 'v) avlnode") (right: "('k, 'v) avlnode") (height: int)

text \<open>The expression \<open>c.get_height if c else 0\<close> for a child slot \<open>c\<close>.\<close>

fun get_height :: "('k, 'v) avlnode \<Rightarrow> int" where
  "get_height Absent = 0"
| "get_height (AVLNode k v l r h) = h"

text \<open>The property \<open>AVLNode.balance_factor\<close>; reading it from \<open>None\<close> raises.\<close>

fun balance_factor :: "('k, 'v) avlnode \<Rightarrow> int option" where
  "balance_factor Absent = None"
| "balance_factor (AVLNode k v l r h) = Some (get_height l - get_height r)"

section \<open>The tree operations (class AVLTree)\<close>

fun update_height :: "('k, 'v) avlnode \<Rightarrow> ('k, 'v) avlnode option" where
  "update_height Absent = None"
| "update_height (AVLNode k v l r h) =
     Some (AVLNode k v l r (max (get_height l) (get_height r) + 1))"

text \<open>
  \<open>rotate_right\<close>: \<open>new_root = node._left\<close>, then \<open>node._left = new_root._right\<close> (raising when
  \<open>new_root\<close> is \<open>None\<close>), \<open>new_root._right = node\<close>, and the two height updates, the node first.
\<close>

fun rotate_right :: "('k, 'v) avlnode \<Rightarrow> ('k, 'v) avlnode option" where
  "rotate_right (AVLNode k v (AVLNode lk lv ll lr lh) r h) = do {
     node \<leftarrow> update_height (AVLNode k v lr r h);
     update_height (AVLNode lk lv ll node lh) }"
| "rotate_right (AVLNode k v Absent r h) = None"
| "rotate_right Absent = None"

fun rotate_left :: "('k, 'v) avlnode \<Rightarrow> ('k, 'v) avlnode option" where
  "rotate_left (AVLNode k v l (AVLNode rk rv rl rr rh) h) = do {
     node \<leftarrow> update_height (AVLNode k v l rl h);
     update_height (AVLNode rk rv node rr rh) }"
| "rotate_left (AVLNode k v l Absent h) = None"
| "rotate_left Absent = None"

fun balance :: "('k, 'v) avlnode \<Rightarrow> ('k, 'v) avlnode option" where
  "balance Absent = None"
| "balance (AVLNode k v l r h) = do {
     bf \<leftarrow> balance_factor (AVLNode k v l r h);
     if bf > 1 then do {
       lbf \<leftarrow> balance_factor l;
       l' \<leftarrow> (if lbf < 0 then rotate_left l else Some l);
       rotate_right (AVLNode k v l' r h) }
     else if bf < - 1 then do {
       rbf \<leftarrow> balance_factor r;
       r' \<leftarrow> (if rbf > 0 then rotate_right r else Some r);
       rotate_left (AVLNode k v l r' h) }
     else Some (AVLNode k v l r h) }"

text \<open>\<open>_min_value_node\<close>: the loop walks down the left links.\<close>

fun min_value_node :: "('k, 'v) avlnode \<Rightarrow> ('k, 'v) avlnode option" where
  "min_value_node Absent = None"
| "min_value_node (AVLNode k v l r h) =
     (if l = Absent then Some (AVLNode k v l r h) else min_value_node l)"

text \<open>The nested function \<open>_insert\<close> of \<open>AVLTree.insert\<close>.\<close>

fun insert_rec :: "('k::linorder, 'v) avlnode \<Rightarrow> 'k \<Rightarrow> 'v \<Rightarrow> ('k, 'v) avlnode option" where
  "insert_rec Absent x y = Some (AVLNode x y Absent Absent 1)"
| "insert_rec (AVLNode k v l r h) x y = do {
     node \<leftarrow> (if x < k then do { l' \<leftarrow> insert_rec l x y; Some (AVLNode k v l' r h) }
              else do { r' \<leftarrow> insert_rec r x y; Some (AVLNode k v l r' h) });
     node' \<leftarrow> update_height node;
     balance node' }"

text \<open>The nested function \<open>_search\<close>; here \<open>None\<close> is the returned \<open>None\<close>, not an error.\<close>

fun search_rec :: "('k::linorder, 'v) avlnode \<Rightarrow> 'k \<Rightarrow> 'v option" where
  "search_rec Absent x = None"
| "search_rec (AVLNode k v l r h) x =
     (if x = k then Some v else if x < k then search_rec l x else search_rec r x)"

text \<open>The nested function \<open>_delete\<close> of \<open>AVLTree.delete\<close>.\<close>

fun delete_rec :: "('k::linorder, 'v) avlnode \<Rightarrow> 'k \<Rightarrow> ('k, 'v) avlnode option" where
  "delete_rec Absent x = Some Absent"
| "delete_rec (AVLNode k v l r h) x =
     (if x < k then do {
        l' \<leftarrow> delete_rec l x;
        node' \<leftarrow> update_height (AVLNode k v l' r h);
        balance node' }
      else if x > k then do {
        r' \<leftarrow> delete_rec r x;
        node' \<leftarrow> update_height (AVLNode k v l r' h);
        balance node' }
      else if l = Absent then Some r
      else if r = Absent then Some l
      else do {
        temp \<leftarrow> min_value_node r;
        r' \<leftarrow> delete_rec r (key temp);
        node' \<leftarrow> update_height (AVLNode (key temp) (val temp) l r' h);
        balance node' })"

text \<open>The nested function \<open>_inorder\<close> without a callback: it appends to the list \<open>keys\<close>.\<close>

fun inorder_rec :: "('k, 'v) avlnode \<Rightarrow> 'k list \<Rightarrow> 'k list" where
  "inorder_rec Absent keys = keys"
| "inorder_rec (AVLNode k v l r h) keys = inorder_rec r (inorder_rec l keys @ [k])"

text \<open>
  The same traversal with the callback \<open>visit\<close> recording its argument: the values are
  visited in the order in which the keys are appended, so the pairs are collected together.
\<close>

fun inorder_visit :: "('k, 'v) avlnode \<Rightarrow> ('k \<times> 'v) list \<Rightarrow> ('k \<times> 'v) list" where
  "inorder_visit Absent acc = acc"
| "inorder_visit (AVLNode k v l r h) acc = inorder_visit r (inorder_visit l acc @ [(k, v)])"

fun size_rec :: "('k, 'v) avlnode \<Rightarrow> int" where
  "size_rec Absent = 0"
| "size_rec (AVLNode k v l r h) = 1 + size_rec l + size_rec r"

text \<open>
  The loop of \<open>bforder\<close>: the deque \<open>q\<close> is a list whose head is popped and to whose end the
  two child slots (present or not) are appended.
\<close>

fun nodes :: "('k, 'v) avlnode \<Rightarrow> nat" where
  "nodes Absent = 0"
| "nodes (AVLNode k v l r h) = Suc (nodes l + nodes r)"

function bforder_loop :: "('k, 'v) avlnode list \<Rightarrow> 'k list \<Rightarrow> 'k list" where
  "bforder_loop [] keys = keys"
| "bforder_loop (Absent # q) keys = bforder_loop q keys"
| "bforder_loop (AVLNode k v l r h # q) keys = bforder_loop (q @ [l, r]) (keys @ [k])"
  by pat_completeness auto
termination
  by (relation "measure (\<lambda>(q, keys). sum_list (map (\<lambda>n. 2 * nodes n + 1) q))") auto

section \<open>The tree object\<close>

record ('k, 'v) AVLTree =
  root :: "('k, 'v) avlnode"

definition insert_avl :: "('k::linorder, 'v) AVLTree \<Rightarrow> 'k \<Rightarrow> 'v \<Rightarrow> ('k, 'v) AVLTree option" where
  "insert_avl t x y = do { r \<leftarrow> insert_rec (root t) x y; Some (t\<lparr>root := r\<rparr>) }"

definition delete :: "('k::linorder, 'v) AVLTree \<Rightarrow> 'k \<Rightarrow> ('k, 'v) AVLTree option" where
  "delete t x = do { r \<leftarrow> delete_rec (root t) x; Some (t\<lparr>root := r\<rparr>) }"

definition search :: "('k::linorder, 'v) AVLTree \<Rightarrow> 'k \<Rightarrow> 'v option" where
  "search t x = search_rec (root t) x"

definition inorder :: "('k, 'v) AVLTree \<Rightarrow> 'k list" where
  "inorder t = inorder_rec (root t) []"

definition bforder :: "('k, 'v) AVLTree \<Rightarrow> 'k list" where
  "bforder t = bforder_loop [root t] []"

definition size_avl :: "('k, 'v) AVLTree \<Rightarrow> int" where
  "size_avl t = size_rec (root t)"

text \<open>
  The constructor: \<open>_root = None\<close>, then one \<open>insert\<close> for each pair of the starting sequence
  (an empty or missing sequence inserts nothing).
\<close>

fun insert_all :: "('k::linorder, 'v) AVLTree \<Rightarrow> ('k \<times> 'v) list \<Rightarrow> ('k, 'v) AVLTree option" where
  "insert_all t [] = Some t"
| "insert_all t ((x, y) # kvs) = do { t' \<leftarrow> insert_avl t x y; insert_all t' kvs }"

definition init :: "('k::linorder \<times> 'v) list \<Rightarrow> ('k, 'v) AVLTree option" where
  "init stating_sequence = insert_all \<lparr>root = Absent\<rparr> stating_sequence"

text \<open>Sequences of the two public mutating calls.\<close>

datatype ('k, 'v) call = Insert 'k 'v | Delete 'k

fun run :: "('k::linorder, 'v) AVLTree \<Rightarrow> ('k, 'v) call list \<Rightarrow> ('k, 'v) AVLTree option" where
  "run t [] = Some t"
| "run t (Insert x y # cs) = do { t' \<leftarrow> insert_avl t x y; run t' cs }"
| "run t (Delete x # cs) = do { t' \<leftarrow> delete t x; run t' cs }"

section \<open>Invariants and observations\<close>

text \<open>
  The height of a subtree counted in nodes: a leaf has height 1, an absent child 0.
\<close>

fun true_height :: "('k, 'v) avlnode \<Rightarrow> int" where
  "true_height Absent = 0"
| "true_height (AVLNode k v l r h) = 1 + max (true_height l) (true_height r)"

text \<open>Cache coherence: the \<open>_height\<close> field of every node is the true height of its subtree.\<close>

fun coherent :: "('k, 'v) avlnode \<Rightarrow> bool" where
  "coherent Absent = True"
| "coherent (AVLNode k v l r h) =
     (h = true_height (AVLNode k v l r h) \<and> coherent l \<and> coherent r)"

text \<open>
  The balance property on the cached heights: at every node the balance factor, the cached
  height of the left child minus that of the right child with an absent child counting 0,
  has absolute value at most 1.
\<close>

fun balanced :: "('k, 'v) avlnode \<Rightarrow> bool" where
  "balanced Absent = True"
| "balanced (AVLNode k v l r h) =
     (\<bar>get_height l - get_height r\<bar> \<le> 1 \<and> balanced l \<and> balanced r)"

text \<open>The entries of a tree from left to right, without an accumulator.\<close>

fun items :: "('k, 'v) avlnode \<Rightarrow> ('k \<times> 'v) list" where
  "items Absent = []"
| "items (AVLNode k v l r h) = items l @ (k, v) # items r"

text \<open>
  Both invariants in the local form the proofs use: every node is balanced and its cached
  height is one more than the larger cached height of its children.
\<close>

fun avl :: "('k, 'v) avlnode \<Rightarrow> bool" where
  "avl Absent = True"
| "avl (AVLNode k v l r h) =
     (avl l \<and> avl r \<and> \<bar>get_height l - get_height r\<bar> \<le> 1
      \<and> h = max (get_height l) (get_height r) + 1)"

abbreviation keys_of :: "('k, 'v) avlnode \<Rightarrow> 'k list" where
  "keys_of t \<equiv> map fst (items t)"

text \<open>
  The binary-search-tree property with unique keys: at every node the keys of the left
  subtree are strictly smaller and those of the right subtree strictly greater.
\<close>

fun bst :: "('k::linorder, 'v) avlnode \<Rightarrow> bool" where
  "bst Absent = True"
| "bst (AVLNode k v l r h) =
     (bst l \<and> bst r \<and> list_all (\<lambda>a. a < k) (inorder_rec l [])
      \<and> list_all (\<lambda>b. k < b) (inorder_rec r []))"

text \<open>
  The ordering that holds when equal keys are stored more than once: smaller or equal to the
  left, greater or equal to the right.
\<close>

fun bst_weak :: "('k::linorder, 'v) avlnode \<Rightarrow> bool" where
  "bst_weak Absent = True"
| "bst_weak (AVLNode k v l r h) =
     (bst_weak l \<and> bst_weak r \<and> list_all (\<lambda>a. a \<le> k) (inorder_rec l [])
      \<and> list_all (\<lambda>b. k \<le> b) (inorder_rec r []))"

text \<open>
  A sequence of calls, run from the tree \<open>t\<close>, in which no \<open>insert\<close> is given a key that the
  tree holds at the time of that call.
\<close>

fun fresh_inserts :: "('k::linorder, 'v) AVLTree \<Rightarrow> ('k, 'v) call list \<Rightarrow> bool" where
  "fresh_inserts t [] = True"
| "fresh_inserts t (Insert x y # cs) =
     (x \<notin> set (inorder t) \<and>
      (case insert_avl t x y of Some t' \<Rightarrow> fresh_inserts t' cs | None \<Rightarrow> False))"
| "fresh_inserts t (Delete x # cs) =
     (case delete t x of Some t' \<Rightarrow> fresh_inserts t' cs | None \<Rightarrow> False)"

text \<open>
  Level order as the specification words it: the keys ordered by depth, and from left to
  right within one depth. \<open>levels\<close> counts the depths that hold a node.
\<close>

fun keys_at_depth :: "('k, 'v) avlnode \<Rightarrow> nat \<Rightarrow> 'k list" where
  "keys_at_depth Absent d = []"
| "keys_at_depth (AVLNode k v l r h) 0 = [k]"
| "keys_at_depth (AVLNode k v l r h) (Suc d) = keys_at_depth l d @ keys_at_depth r d"

fun levels :: "('k, 'v) avlnode \<Rightarrow> nat" where
  "levels Absent = 0"
| "levels (AVLNode k v l r h) = Suc (max (levels l) (levels r))"

definition level_order_spec :: "('k, 'v) avlnode \<Rightarrow> 'k list" where
  "level_order_spec t = concat (map (keys_at_depth t) [0..<levels t])"

text \<open>
  A queue seen as a forest: the child slots of its present nodes, its keys at one depth, and
  the number of depths it spans.
\<close>

fun children :: "('k, 'v) avlnode list \<Rightarrow> ('k, 'v) avlnode list" where
  "children [] = []"
| "children (Absent # q) = children q"
| "children (AVLNode k v l r h # q) = l # r # children q"

fun forest_at :: "('k, 'v) avlnode list \<Rightarrow> nat \<Rightarrow> 'k list" where
  "forest_at [] d = []"
| "forest_at (n # q) d = keys_at_depth n d @ forest_at q d"

fun forest_levels :: "('k, 'v) avlnode list \<Rightarrow> nat" where
  "forest_levels [] = 0"
| "forest_levels (n # q) = max (levels n) (forest_levels q)"

section \<open>Rebalancing\<close>

lemma true_height_nonneg: "0 \<le> true_height t"
  by (induction t) auto

lemma coherent_get_height: "coherent t \<Longrightarrow> get_height t = true_height t"
  by (cases t) auto

lemma avl_iff: "avl t \<longleftrightarrow> coherent t \<and> balanced t"
  by (induction t) (auto simp: coherent_get_height)

lemma avl_height_nonneg: "avl t \<Longrightarrow> 0 \<le> get_height t"
  by (simp add: avl_iff coherent_get_height true_height_nonneg)

lemma avl_height_pos: "avl (AVLNode k v l r h) \<Longrightarrow> 1 \<le> h"
  using avl_height_nonneg[of l] avl_height_nonneg[of r] by auto

lemma avl_height_zero: "avl t \<Longrightarrow> get_height t = 0 \<longleftrightarrow> t = Absent"
  using avl_height_pos by (cases t) fastforce+

lemma balance_ok:
  assumes "avl l" "avl r" "\<bar>get_height l - get_height r\<bar> \<le> 1"
  shows "balance (AVLNode k v l r h) = Some (AVLNode k v l r h)"
  using assms by auto

lemma balance_left:
  assumes "avl l" "avl r" "get_height l = get_height r + 2"
  shows "\<exists>t'. balance (AVLNode k v l r h) = Some t' \<and> avl t'
           \<and> items t' = items l @ (k, v) # items r
           \<and> (get_height t' = get_height l \<or> get_height t' = get_height l + 1)"
proof (cases l)
  case Absent
  with assms avl_height_nonneg[of r] show ?thesis by simp
next
  case L: (AVLNode lk lv ll lr lh)
  show ?thesis
  proof (cases "get_height ll < get_height lr")
    case False
    with L assms show ?thesis by (auto simp: max_def)
  next
    case True
    with L assms avl_height_nonneg[of ll] obtain mk mv ml mr mh where M: "lr = AVLNode mk mv ml mr mh"
      by (cases lr) auto
    with True L assms show ?thesis by (auto simp: max_def split: if_splits)
  qed
qed

lemma balance_right:
  assumes "avl l" "avl r" "get_height r = get_height l + 2"
  shows "\<exists>t'. balance (AVLNode k v l r h) = Some t' \<and> avl t'
           \<and> items t' = items l @ (k, v) # items r
           \<and> (get_height t' = get_height r \<or> get_height t' = get_height r + 1)"
proof (cases r)
  case Absent
  with assms avl_height_nonneg[of l] show ?thesis by simp
next
  case R: (AVLNode rk rv rl rr rh)
  show ?thesis
  proof (cases "get_height rl > get_height rr")
    case False
    with R assms show ?thesis by (auto simp: max_def)
  next
    case True
    with R assms avl_height_nonneg[of rr] obtain mk mv ml mr mh where M: "rl = AVLNode mk mv ml mr mh"
      by (cases rl) auto
    with True R assms show ?thesis by (auto simp: max_def split: if_splits)
  qed
qed

lemma rebalance:
  assumes "avl l" "avl r" "\<bar>get_height l - get_height r\<bar> \<le> 2"
  shows "\<exists>t'. (update_height (AVLNode k v l r h) \<bind> balance) = Some t' \<and> avl t'
           \<and> items t' = items l @ (k, v) # items r
           \<and> (get_height t' = max (get_height l) (get_height r) + 1
              \<or> \<bar>get_height l - get_height r\<bar> = 2
                \<and> get_height t' = max (get_height l) (get_height r))"
proof -
  let ?h = "max (get_height l) (get_height r) + 1"
  have upd: "(update_height (AVLNode k v l r h) \<bind> balance) = balance (AVLNode k v l r ?h)"
    by simp
  consider (ok) "\<bar>get_height l - get_height r\<bar> \<le> 1"
    | (lft) "get_height l = get_height r + 2"
    | (rgt) "get_height r = get_height l + 2"
    using assms(3) by linarith
  then show ?thesis
  proof cases
    case ok
    with assms balance_ok[of l r k v ?h] show ?thesis
      unfolding upd by simp
  next
    case lft
    from balance_left[OF assms(1,2) lft, of k v ?h] lft show ?thesis
      unfolding upd by auto
  next
    case rgt
    from balance_right[OF assms(1,2) rgt, of k v ?h] rgt show ?thesis
      unfolding upd by auto
  qed
qed

text \<open>What one step on the way back up does to the entries, whatever the heights.\<close>

lemma rebalance_items:
  "(update_height (AVLNode k v l r h) \<bind> balance) = Some t' \<Longrightarrow>
   items t' = items l @ (k, v) # items r"
  by (cases l; cases r; cases "left l"; cases "right l"; cases "left r"; cases "right r")
     (auto split: if_splits bind_splits)

declare balance.simps(2) [simp del]

declare update_height.simps(2) [simp del]

lemma insert_rec_avl:
  "avl t \<Longrightarrow> \<exists>t'. insert_rec t x y = Some t' \<and> avl t'
      \<and> (get_height t' = get_height t \<or> get_height t' = get_height t + 1)
      \<and> mset (items t') = add_mset (x, y) (mset (items t))"
proof (induction t)
  case Absent
  show ?case by simp
next
  case (AVLNode k v l r h)
  from AVLNode.prems have al: "avl l" and ar: "avl r"
    and bal: "\<bar>get_height l - get_height r\<bar> \<le> 1"
    and h: "h = max (get_height l) (get_height r) + 1" by auto
  show ?case
  proof (cases "x < k")
    case True
    from AVLNode.IH(1)[OF al] obtain l' where l': "insert_rec l x y = Some l'" "avl l'"
      "get_height l' = get_height l \<or> get_height l' = get_height l + 1"
      "mset (items l') = add_mset (x, y) (mset (items l))" by blast
    from l'(3) bal have "\<bar>get_height l' - get_height r\<bar> \<le> 2" by linarith
    from rebalance[OF l'(2) ar this, of k v h] obtain t' where
      t': "(update_height (AVLNode k v l' r h) \<bind> balance) = Some t'" "avl t'"
      "items t' = items l' @ (k, v) # items r"
      "get_height t' = max (get_height l') (get_height r) + 1
        \<or> \<bar>get_height l' - get_height r\<bar> = 2 \<and> get_height t' = max (get_height l') (get_height r)"
      by blast
    have "insert_rec (AVLNode k v l r h) x y = Some t'"
      using True l'(1) t'(1) by simp
    moreover have "get_height t' = h \<or> get_height t' = h + 1"
      using t'(4) l'(3) bal h by auto
    moreover have "mset (items t') = add_mset (x, y) (mset (items (AVLNode k v l r h)))"
      using t'(3) l'(4) by simp
    ultimately show ?thesis using t'(2) by simp
  next
    case False
    from AVLNode.IH(2)[OF ar] obtain r' where r': "insert_rec r x y = Some r'" "avl r'"
      "get_height r' = get_height r \<or> get_height r' = get_height r + 1"
      "mset (items r') = add_mset (x, y) (mset (items r))" by blast
    from r'(3) bal have "\<bar>get_height l - get_height r'\<bar> \<le> 2" by linarith
    from rebalance[OF al r'(2) this, of k v h] obtain t' where
      t': "(update_height (AVLNode k v l r' h) \<bind> balance) = Some t'" "avl t'"
      "items t' = items l @ (k, v) # items r'"
      "get_height t' = max (get_height l) (get_height r') + 1
        \<or> \<bar>get_height l - get_height r'\<bar> = 2 \<and> get_height t' = max (get_height l) (get_height r')"
      by blast
    have "insert_rec (AVLNode k v l r h) x y = Some t'"
      using False r'(1) t'(1) by simp
    moreover have "get_height t' = h \<or> get_height t' = h + 1"
      using t'(4) r'(3) bal h by auto
    moreover have "mset (items t') = add_mset (x, y) (mset (items (AVLNode k v l r h)))"
      using t'(3) r'(4) by simp
    ultimately show ?thesis using t'(2) by simp
  qed
qed

lemma insert_rec_sorted:
  "insert_rec t x y = Some t' \<Longrightarrow> sorted (keys_of t) \<Longrightarrow>
     sorted (keys_of t') \<and> set (keys_of t') = insert x (set (keys_of t))"
proof (induction t arbitrary: t')
  case Absent
  then show ?case by auto
next
  case (AVLNode k v l r h)
  show ?case
  proof (cases "x < k")
    case True
    with AVLNode.prems(1) obtain l' where l': "insert_rec l x y = Some l'"
      and t': "(update_height (AVLNode k v l' r h) \<bind> balance) = Some t'"
      by (auto split: bind_splits)
    from AVLNode.prems(2) have "sorted (keys_of l)" by (simp add: sorted_append)
    from AVLNode.IH(1)[OF l' this] rebalance_items[OF t'] AVLNode.prems(2) True
    show ?thesis by (auto simp: sorted_append)
  next
    case False
    with AVLNode.prems(1) obtain r' where r': "insert_rec r x y = Some r'"
      and t': "(update_height (AVLNode k v l r' h) \<bind> balance) = Some t'"
      by (auto split: bind_splits)
    from AVLNode.prems(2) have "sorted (keys_of r)" by (simp add: sorted_append)
    from AVLNode.IH(2)[OF r' this] rebalance_items[OF t'] AVLNode.prems(2) False
    show ?thesis by (auto simp: sorted_append)
  qed
qed

lemma min_value_node_hd:
  "t \<noteq> Absent \<Longrightarrow> \<exists>m. min_value_node t = Some m \<and> m \<noteq> Absent
      \<and> items t = (key m, val m) # tl (items t)"
proof (induction t)
  case Absent
  then show ?case by simp
next
  case (AVLNode k v l r h)
  show ?case
  proof (cases "l = Absent")
    case True
    then show ?thesis by simp
  next
    case False
    from AVLNode.IH(1)[OF False] obtain m where "min_value_node l = Some m" "m \<noteq> Absent"
      "items l = (key m, val m) # tl (items l)" by blast
    with False show ?thesis by (cases "items l") auto
  qed
qed

lemma delete_rec_lt:
  "x < k \<Longrightarrow> delete_rec (AVLNode k v l r h) x =
     delete_rec l x \<bind> (\<lambda>l'. update_height (AVLNode k v l' r h) \<bind> balance)"
  by simp

lemma delete_rec_gt:
  "k < x \<Longrightarrow> delete_rec (AVLNode k v l r h) x =
     delete_rec r x \<bind> (\<lambda>r'. update_height (AVLNode k v l r' h) \<bind> balance)"
proof -
  assume "k < x"
  then have "\<not> x < k" by (simp add: not_less less_imp_le)
  with \<open>k < x\<close> show ?thesis by simp
qed

lemma delete_rec_two_children:
  "l \<noteq> Absent \<Longrightarrow> r \<noteq> Absent \<Longrightarrow> delete_rec (AVLNode k v l r h) k =
     min_value_node r \<bind> (\<lambda>temp. delete_rec r (key temp) \<bind>
       (\<lambda>r'. update_height (AVLNode (key temp) (val temp) l r' h) \<bind> balance))"
  by simp

lemma delete_rec_avl:
  "avl t \<Longrightarrow> \<exists>t'. delete_rec t x = Some t' \<and> avl t'
      \<and> (get_height t' = get_height t \<or> get_height t' = get_height t - 1)"
proof (induction t arbitrary: x)
  case Absent
  show ?case by simp
next
  case (AVLNode k v l r h)
  from AVLNode.prems have al: "avl l" and ar: "avl r"
    and bal: "\<bar>get_height l - get_height r\<bar> \<le> 1"
    and h: "h = max (get_height l) (get_height r) + 1" by auto
  have right_case: "\<exists>t'. (delete_rec r z \<bind> (\<lambda>r'. update_height (AVLNode k' v' l r' h) \<bind> balance)) = Some t'
        \<and> avl t' \<and> (get_height t' = h \<or> get_height t' = h - 1)" for z k' v'
  proof -
    from AVLNode.IH(2)[OF ar, of z] obtain r' where r': "delete_rec r z = Some r'" "avl r'"
      "get_height r' = get_height r \<or> get_height r' = get_height r - 1" by blast
    from r'(3) bal have "\<bar>get_height l - get_height r'\<bar> \<le> 2" by linarith
    from rebalance[OF al r'(2) this, of k' v' h] obtain t' where
      t': "(update_height (AVLNode k' v' l r' h) \<bind> balance) = Some t'" "avl t'"
      "get_height t' = max (get_height l) (get_height r') + 1
        \<or> \<bar>get_height l - get_height r'\<bar> = 2 \<and> get_height t' = max (get_height l) (get_height r')"
      by blast
    have "get_height t' = h \<or> get_height t' = h - 1"
      using t'(3) r'(3) bal h by auto
    with r'(1) t'(1,2) show ?thesis by simp
  qed
  consider (lt) "x < k" | (gt) "k < x" | (eq) "x = k" by fastforce
  then show ?case
  proof cases
    case lt
    from AVLNode.IH(1)[OF al, of x] obtain l' where l': "delete_rec l x = Some l'" "avl l'"
      "get_height l' = get_height l \<or> get_height l' = get_height l - 1" by blast
    from l'(3) bal have "\<bar>get_height l' - get_height r\<bar> \<le> 2" by linarith
    from rebalance[OF l'(2) ar this, of k v h] obtain t' where
      t': "(update_height (AVLNode k v l' r h) \<bind> balance) = Some t'" "avl t'"
      "get_height t' = max (get_height l') (get_height r) + 1
        \<or> \<bar>get_height l' - get_height r\<bar> = 2 \<and> get_height t' = max (get_height l') (get_height r)"
      by blast
    have "delete_rec (AVLNode k v l r h) x = Some t'"
      unfolding delete_rec_lt[OF lt] using l'(1) t'(1) by simp
    moreover have "get_height t' = h \<or> get_height t' = h - 1"
      using t'(3) l'(3) bal h by auto
    ultimately show ?thesis using t'(2) by simp
  next
    case gt
    from right_case[of x k v] show ?thesis unfolding delete_rec_gt[OF gt] by simp
  next
    case eq
    show ?thesis
    proof (cases "l = Absent")
      case True
      with eq ar bal h avl_height_nonneg[OF ar] show ?thesis by auto
    next
      case lne: False
      show ?thesis
      proof (cases "r = Absent")
        case True
        with eq lne al bal h avl_height_nonneg[OF al] show ?thesis by auto
      next
        case rne: False
        from min_value_node_hd[OF rne] obtain m where m: "min_value_node r = Some m" by blast
        from right_case[of "key m" "key m" "val m"] show ?thesis
          unfolding eq delete_rec_two_children[OF lne rne] m by simp
      qed
    qed
  qed
qed

lemma sorted_glue:
  "sorted xs \<Longrightarrow> sorted ys \<Longrightarrow> \<forall>a\<in>set xs. a \<le> k \<Longrightarrow> \<forall>b\<in>set ys. k \<le> b \<Longrightarrow>
   sorted (xs @ k # ys)" for k :: "'a::linorder"
  by (fastforce simp: sorted_append)

lemma mset_remove_subset: "mset ys = mset xs - {#x#} \<Longrightarrow> set ys \<subseteq> set xs"
proof
  fix a
  assume eq: "mset ys = mset xs - {#x#}" and "a \<in> set ys"
  then have "a \<in># mset xs - {#x#}" by (metis set_mset_mset)
  then have "a \<in># mset xs" by (rule in_diffD)
  then show "a \<in> set xs" by simp
qed

lemma first_key:
  assumes "xs = (a, b) # tl xs"
  shows "a \<in> set (map fst xs)" and "sorted (map fst xs) \<Longrightarrow> \<forall>c\<in>set (map fst xs). a \<le> c"
proof -
  obtain ys where ys: "xs = (a, b) # ys" using assms by blast
  then show "a \<in> set (map fst xs)" by simp
  show "\<forall>c\<in>set (map fst xs). a \<le> c" if "sorted (map fst xs)"
    using that ys by auto
qed

lemma delete_rec_sorted:
  "delete_rec t x = Some t' \<Longrightarrow> sorted (keys_of t) \<Longrightarrow>
     sorted (keys_of t') \<and> mset (keys_of t') = mset (keys_of t) - {#x#}"
proof (induction t arbitrary: t' x)
  case Absent
  then show ?case by auto
next
  case (AVLNode k v l r h)
  from AVLNode.prems(2) have sl: "sorted (keys_of l)" and sr: "sorted (keys_of r)"
    and lk: "\<forall>a\<in>set (keys_of l). a \<le> k" and kr: "\<forall>b\<in>set (keys_of r). k \<le> b"
    by (auto simp: sorted_append)
  consider (lt) "x < k" | (gt) "k < x" | (eq) "x = k" by fastforce
  then show ?case
  proof cases
    case lt
    from AVLNode.prems(1)[unfolded delete_rec_lt[OF lt] bind_eq_Some_conv]
    obtain l' where l': "delete_rec l x = Some l'"
      and t': "(update_height (AVLNode k v l' r h) \<bind> balance) = Some t'"
      unfolding bind_eq_Some_conv by blast
    from AVLNode.IH(1)[OF l' sl] have IH: "sorted (keys_of l')"
      "mset (keys_of l') = mset (keys_of l) - {#x#}" by auto
    from IH(2) have sub: "set (keys_of l') \<subseteq> set (keys_of l)"
      by (rule mset_remove_subset)
    have xr: "x \<notin> set (keys_of r)" "x \<noteq> k" using kr lt by auto
    have "mset (keys_of t') = mset (keys_of (AVLNode k v l r h)) - {#x#}"
    proof (cases "x \<in> set (keys_of l)")
      case True
      then have "x \<in># mset (keys_of l)" by simp
      then show ?thesis using rebalance_items[OF t'] IH(2) by simp
    next
      case False
      then have "mset (keys_of l) - {#x#} = mset (keys_of l)"
        by (simp add: diff_single_trivial)
      moreover have "mset (keys_of (AVLNode k v l r h)) - {#x#} = mset (keys_of (AVLNode k v l r h))"
        using False xr by (simp add: diff_single_trivial)
      ultimately show ?thesis using rebalance_items[OF t'] IH(2) by simp
    qed
    moreover have "sorted (keys_of t')"
    proof -
      have "\<forall>a\<in>set (keys_of l'). a \<le> k" using sub lk by blast
      from sorted_glue[OF IH(1) sr this kr] show ?thesis
        using rebalance_items[OF t'] by simp
    qed
    ultimately show ?thesis by simp
  next
    case gt
    from AVLNode.prems(1)[unfolded delete_rec_gt[OF gt] bind_eq_Some_conv]
    obtain r' where r': "delete_rec r x = Some r'"
      and t': "(update_height (AVLNode k v l r' h) \<bind> balance) = Some t'"
      unfolding bind_eq_Some_conv by blast
    from AVLNode.IH(2)[OF r' sr] have IH: "sorted (keys_of r')"
      "mset (keys_of r') = mset (keys_of r) - {#x#}" by auto
    from IH(2) have sub: "set (keys_of r') \<subseteq> set (keys_of r)"
      by (rule mset_remove_subset)
    have xl: "x \<notin> set (keys_of l)" "x \<noteq> k" using lk gt by auto
    have "mset (keys_of t') = mset (keys_of (AVLNode k v l r h)) - {#x#}"
    proof (cases "x \<in> set (keys_of r)")
      case True
      then have "x \<in># mset (keys_of r)" by simp
      then show ?thesis using rebalance_items[OF t'] IH(2) xl by simp
    next
      case False
      then have "mset (keys_of r) - {#x#} = mset (keys_of r)"
        by (simp add: diff_single_trivial)
      moreover have "mset (keys_of (AVLNode k v l r h)) - {#x#} = mset (keys_of (AVLNode k v l r h))"
        using False xl by (simp add: diff_single_trivial)
      ultimately show ?thesis using rebalance_items[OF t'] IH(2) by simp
    qed
    moreover have "sorted (keys_of t')"
    proof -
      have "\<forall>b\<in>set (keys_of r'). k \<le> b" using sub kr by blast
      from sorted_glue[OF sl IH(1) lk this] show ?thesis
        using rebalance_items[OF t'] by simp
    qed
    ultimately show ?thesis by simp
  next
    case eq
    show ?thesis
    proof (cases "l = Absent")
      case True
      with eq AVLNode.prems(1) sr show ?thesis by auto
    next
      case lne: False
      show ?thesis
      proof (cases "r = Absent")
        case True
        with eq lne AVLNode.prems(1) sl show ?thesis by auto
      next
        case rne: False
        from min_value_node_hd[OF rne] obtain m where m: "min_value_node r = Some m"
          and hd: "items r = (key m, val m) # tl (items r)" by blast
        from AVLNode.prems(1)[unfolded eq delete_rec_two_children[OF lne rne] m]
        obtain r' where r': "delete_rec r (key m) = Some r'"
          and t': "(update_height (AVLNode (key m) (val m) l r' h) \<bind> balance) = Some t'"
          unfolding bind_eq_Some_conv by auto
        from AVLNode.IH(2)[OF r' sr] have IH: "sorted (keys_of r')"
          "mset (keys_of r') = mset (keys_of r) - {#key m#}" by auto
        from IH(2) have sub: "set (keys_of r') \<subseteq> set (keys_of r)"
          by (rule mset_remove_subset)
        from first_key[OF hd] sr have min_in: "key m \<in> set (keys_of r)"
          and min_le: "\<forall>b\<in>set (keys_of r). key m \<le> b" by blast+
        have "mset (keys_of t') = mset (keys_of l) + mset (keys_of r)"
          using rebalance_items[OF t'] IH(2) min_in by simp
        then have "mset (keys_of t') = mset (keys_of (AVLNode k v l r h)) - {#x#}"
          using eq by simp
        moreover have "sorted (keys_of t')"
        proof -
          have "\<forall>b\<in>set (keys_of r'). key m \<le> b" using sub min_le by blast
          moreover have "\<forall>a\<in>set (keys_of l). a \<le> key m"
            using lk kr min_in by (meson order_trans)
          ultimately show ?thesis
            using sorted_glue[OF sl IH(1), of "key m"] rebalance_items[OF t'] by simp
        qed
        ultimately show ?thesis by simp
      qed
    qed
  qed
qed

section \<open>Traversals and size\<close>

lemma inorder_visit_items: "inorder_visit t acc = acc @ items t"
  by (induction t arbitrary: acc) auto

lemma inorder_rec_keys: "inorder_rec t acc = acc @ keys_of t"
  by (induction t arbitrary: acc) auto

lemma inorder_keys: "inorder t = keys_of (root t)"
  by (simp add: inorder_def inorder_rec_keys)

lemma size_rec_items: "size_rec t = int (length (items t))"
  by (induction t) auto

text \<open>
  Claim C9: \<open>size()\<close> equals the length of the list returned by \<open>inorder()\<close>, for every
  tree whatsoever (so also for every reachable one, duplicated keys included): both walk the
  whole structure and count each node once.
\<close>

theorem size_is_length_of_inorder: "size_avl t = int (length (inorder t))"
  by (simp add: size_avl_def inorder_keys size_rec_items)

section \<open>Sequences of calls\<close>

lemma run_invariant:
  "avl (root t) \<Longrightarrow> sorted (keys_of (root t)) \<Longrightarrow>
   \<exists>t'. run t cs = Some t' \<and> avl (root t') \<and> sorted (keys_of (root t'))"
proof (induction cs arbitrary: t)
  case Nil
  then show ?case by simp
next
  case (Cons c cs)
  show ?case
  proof (cases c)
    case (Insert x y)
    from insert_rec_avl[OF Cons.prems(1), of x y] obtain n where
      n: "insert_rec (root t) x y = Some n" "avl n" by blast
    from insert_rec_sorted[OF n(1) Cons.prems(2)] have "sorted (keys_of n)" by simp
    with Cons.IH[of "t\<lparr>root := n\<rparr>"] n Insert show ?thesis
      by (simp add: insert_avl_def)
  next
    case (Delete x)
    from delete_rec_avl[OF Cons.prems(1), of x] obtain n where
      n: "delete_rec (root t) x = Some n" "avl n" by blast
    from delete_rec_sorted[OF n(1) Cons.prems(2)] have "sorted (keys_of n)" by simp
    with Cons.IH[of "t\<lparr>root := n\<rparr>"] n Delete show ?thesis
      by (simp add: delete_def)
  qed
qed

lemma reachable_invariant:
  "\<exists>t. run \<lparr>root = Absent\<rparr> cs = Some t \<and> avl (root t) \<and> sorted (keys_of (root t))"
  using run_invariant[of "\<lparr>root = Absent\<rparr>" cs] by simp

text \<open>
  Claim C3: after every sequence of public \<open>insert\<close> and \<open>delete\<close> calls on a new tree, no
  call raises and every node has a balance factor (cached height of the left child minus
  cached height of the right child, an absent child counting 0) of absolute value at most 1.
\<close>

theorem balance_invariant_after_calls:
  "\<exists>t. run \<lparr>root = Absent\<rparr> cs = Some t \<and> balanced (root t)"
  using reachable_invariant[of cs] by (auto simp: avl_iff)

text \<open>
  Claim C4: after every sequence of public mutating calls on a new tree, the cached height
  of every node is the true height of its subtree (a leaf 1, an absent child 0). The other
  public operations do not change the tree.
\<close>

theorem height_cache_after_calls:
  "\<exists>t. run \<lparr>root = Absent\<rparr> cs = Some t \<and> coherent (root t)"
  using reachable_invariant[of cs] by (auto simp: avl_iff)

section \<open>Deleting an absent key\<close>

lemma delete_rec_absent:
  "avl t \<Longrightarrow> x \<notin> set (keys_of t) \<Longrightarrow> delete_rec t x = Some t"
proof (induction t)
  case Absent
  show ?case by simp
next
  case (AVLNode k v l r h)
  from AVLNode.prems have al: "avl l" and ar: "avl r"
    and bal: "\<bar>get_height l - get_height r\<bar> \<le> 1"
    and h: "h = max (get_height l) (get_height r) + 1"
    and xl: "x \<notin> set (keys_of l)" and xr: "x \<notin> set (keys_of r)" and xk: "x \<noteq> k" by auto
  have same: "(update_height (AVLNode k v l r h) \<bind> balance) = Some (AVLNode k v l r h)"
    using balance_ok[OF al ar bal, of k v h] h by (simp add: update_height.simps(2))
  from xk consider "x < k" | "k < x" by fastforce
  then show ?case
  proof cases
    case 1
    show ?thesis unfolding delete_rec_lt[OF 1] using AVLNode.IH(1)[OF al xl] same by simp
  next
    case 2
    show ?thesis unfolding delete_rec_gt[OF 2] using AVLNode.IH(2)[OF ar xr] same by simp
  qed
qed

text \<open>
  Claim C5: on a tree whose cached heights are coherent and whose nodes are balanced,
  \<open>delete(k)\<close> with a key that is not in the tree returns without error and leaves the tree
  identical: shape, keys, values and cached heights.
\<close>

theorem delete_absent_key_is_noop:
  "coherent (root t) \<Longrightarrow> balanced (root t) \<Longrightarrow> k \<notin> set (inorder t) \<Longrightarrow> delete t k = Some t"
  using delete_rec_absent[of "root t" k] by (simp add: avl_iff inorder_keys delete_def)

theorem delete_absent_key_is_noop_witness:
  "coherent (root \<lparr>root = AVLNode (2::int) ''b'' (AVLNode 1 ''a'' Absent Absent 1) Absent 2\<rparr>)
   \<and> balanced (root \<lparr>root = AVLNode (2::int) ''b'' (AVLNode 1 ''a'' Absent Absent 1) Absent 2\<rparr>)
   \<and> 3 \<notin> set (inorder \<lparr>root = AVLNode (2::int) ''b'' (AVLNode 1 ''a'' Absent Absent 1) Absent 2\<rparr>)
   \<and> delete \<lparr>root = AVLNode (2::int) ''b'' (AVLNode 1 ''a'' Absent Absent 1) Absent 2\<rparr> 3
       = Some \<lparr>root = AVLNode 2 ''b'' (AVLNode 1 ''a'' Absent Absent 1) Absent 2\<rparr>"
  using delete_absent_key_is_noop
    [of "\<lparr>root = AVLNode (2::int) ''b'' (AVLNode 1 ''a'' Absent Absent 1) Absent 2\<rparr>" 3]
  by (simp add: inorder_def)

section \<open>Balancing never meets an absent child; rotations keep the order\<close>

lemma get_height_nonneg: "coherent t \<Longrightarrow> 0 \<le> get_height t"
  by (simp add: coherent_get_height true_height_nonneg)

lemma get_height_pos: "coherent t \<Longrightarrow> t \<noteq> Absent \<Longrightarrow> 1 \<le> get_height t"
  using true_height_nonneg by (cases t) (auto simp: max_def)

lemma rotate_right_present: "l \<noteq> Absent \<Longrightarrow> \<exists>t'. rotate_right (AVLNode k v l r h) = Some t'"
  by (cases l) (auto simp: update_height.simps(2))

lemma rotate_left_present: "r \<noteq> Absent \<Longrightarrow> \<exists>t'. rotate_left (AVLNode k v l r h) = Some t'"
  by (cases r) (auto simp: update_height.simps(2))

lemma rotate_left_result: "rotate_left t = Some t' \<Longrightarrow> t' \<noteq> Absent"
  by (cases t rule: rotate_left.cases) (auto simp: update_height.simps(2))

lemma rotate_right_result: "rotate_right t = Some t' \<Longrightarrow> t' \<noteq> Absent"
  by (cases t rule: rotate_right.cases) (auto simp: update_height.simps(2))

text \<open>
  Claim C10: in a node whose cached heights are coherent, a balance factor above 1 means that
  the left child is present and one below \<open>-1\<close> that the right child is present; and \<open>balance\<close>
  returns a node, that is, none of its child accesses and none of the accesses of the
  rotations it calls meets an absent node.
\<close>

theorem balance_child_accesses_present:
  assumes "coherent (AVLNode k v l r h)"
  shows "(\<exists>bf. balance_factor (AVLNode k v l r h) = Some bf
            \<and> (1 < bf \<longrightarrow> l \<noteq> Absent) \<and> (bf < - 1 \<longrightarrow> r \<noteq> Absent))
         \<and> (\<exists>t'. balance (AVLNode k v l r h) = Some t')"
proof -
  from assms have cl: "coherent l" and cr: "coherent r" by auto
  have lp: "l \<noteq> Absent" if "1 < get_height l - get_height r"
    using that get_height_nonneg[OF cr] by auto
  have rp: "r \<noteq> Absent" if "get_height l - get_height r < - 1"
    using that get_height_nonneg[OF cl] by auto
  have "\<exists>t'. balance (AVLNode k v l r h) = Some t'"
  proof -
    consider (lft) "1 < get_height l - get_height r"
      | (rgt) "\<not> 1 < get_height l - get_height r" "get_height l - get_height r < - 1"
      | (ok) "\<not> 1 < get_height l - get_height r" "\<not> get_height l - get_height r < - 1"
      by blast
    then show ?thesis
    proof cases
      case lft
      from lp[OF lft] obtain lk lv ll lr lh where L: "l = AVLNode lk lv ll lr lh"
        by (cases l) auto
      show ?thesis
      proof (cases "get_height ll - get_height lr < 0")
        case True
        from cl L have "coherent lr" "coherent ll" by auto
        with True get_height_nonneg[of ll] have "lr \<noteq> Absent" by auto
        from rotate_left_present[OF this, of lk lv ll lh] obtain l' where
          l': "rotate_left l = Some l'" unfolding L by blast
        from rotate_right_present[OF rotate_left_result[OF l'], of k v r h] l' lft True L
        show ?thesis by (auto simp: balance.simps(2))
      next
        case False
        with rotate_right_present[of l k v r h] lp[OF lft] lft L show ?thesis
          by (auto simp: balance.simps(2))
      qed
    next
      case rgt
      from rp[OF rgt(2)] obtain rk rv rl rr rh where R: "r = AVLNode rk rv rl rr rh"
        by (cases r) auto
      show ?thesis
      proof (cases "0 < get_height rl - get_height rr")
        case True
        from cr R have "coherent rl" "coherent rr" by auto
        with True get_height_nonneg[of rr] have "rl \<noteq> Absent" by auto
        from rotate_right_present[OF this, of rk rv rr rh] obtain r' where
          r': "rotate_right r = Some r'" unfolding R by blast
        from rotate_left_present[OF rotate_right_result[OF r'], of k v l h] r' rgt True R
        show ?thesis by (auto simp: balance.simps(2))
      next
        case False
        with rotate_left_present[of r k v l h] rp[OF rgt(2)] rgt R show ?thesis
          by (auto simp: balance.simps(2))
      qed
    next
      case ok
      then show ?thesis by (simp add: balance.simps(2))
    qed
  qed
  with lp rp show ?thesis by simp
qed

theorem balance_child_accesses_present_witness:
  "coherent (AVLNode (3::int) ''c'' (AVLNode 1 ''a'' Absent (AVLNode 2 ''b'' Absent Absent 1) 2) Absent 3)
   \<and> balance_factor (AVLNode (3::int) ''c'' (AVLNode 1 ''a'' Absent (AVLNode 2 ''b'' Absent Absent 1) 2) Absent 3) = Some 2
   \<and> balance (AVLNode (3::int) ''c'' (AVLNode 1 ''a'' Absent (AVLNode 2 ''b'' Absent Absent 1) 2) Absent 3)
      = Some (AVLNode 2 ''b'' (AVLNode 1 ''a'' Absent Absent 1) (AVLNode 3 ''c'' Absent Absent 1) 2)"
  using balance_child_accesses_present
    [of "3::int" "''c''" "AVLNode 1 ''a'' Absent (AVLNode 2 ''b'' Absent Absent 1) 2" Absent 3]
  by (simp add: balance.simps(2) update_height.simps(2))

lemma bst_node:
  "bst (AVLNode k v l r h) \<longleftrightarrow>
     bst l \<and> bst r \<and> (\<forall>a\<in>set (keys_of l). a < k) \<and> (\<forall>b\<in>set (keys_of r). k < b)"
  by (simp add: inorder_rec_keys list_all_iff)

text \<open>
  Claim C7: on a node whose left child is present \<open>rotate_right\<close> returns a tree with the same
  entries in the same inorder sequence, and a tree that satisfies the binary-search-tree
  property still satisfies it afterwards; the same holds for \<open>rotate_left\<close> on a node whose
  right child is present.
\<close>

theorem rotations_preserve_order:
  "(l \<noteq> Absent \<longrightarrow>
      (\<exists>t'. rotate_right (AVLNode k v l r h) = Some t'
         \<and> inorder_visit t' [] = inorder_visit (AVLNode k v l r h) []
         \<and> inorder_rec t' [] = inorder_rec (AVLNode k v l r h) []
         \<and> (bst (AVLNode k v l r h) \<longrightarrow> bst t')))
   \<and> (r \<noteq> Absent \<longrightarrow>
      (\<exists>t'. rotate_left (AVLNode k v l r h) = Some t'
         \<and> inorder_visit t' [] = inorder_visit (AVLNode k v l r h) []
         \<and> inorder_rec t' [] = inorder_rec (AVLNode k v l r h) []
         \<and> (bst (AVLNode k v l r h) \<longrightarrow> bst t')))"
proof (intro conjI impI)
  assume "l \<noteq> Absent"
  then obtain lk lv ll lr lh where L: "l = AVLNode lk lv ll lr lh" by (cases l) auto
  show "\<exists>t'. rotate_right (AVLNode k v l r h) = Some t'
         \<and> inorder_visit t' [] = inorder_visit (AVLNode k v l r h) []
         \<and> inorder_rec t' [] = inorder_rec (AVLNode k v l r h) []
         \<and> (bst (AVLNode k v l r h) \<longrightarrow> bst t')"
    unfolding L
    by (simp del: bst.simps add: bst_node update_height.simps inorder_visit_items inorder_rec_keys)
       fastforce
next
  assume "r \<noteq> Absent"
  then obtain rk rv rl rr rh where R: "r = AVLNode rk rv rl rr rh" by (cases r) auto
  show "\<exists>t'. rotate_left (AVLNode k v l r h) = Some t'
         \<and> inorder_visit t' [] = inorder_visit (AVLNode k v l r h) []
         \<and> inorder_rec t' [] = inorder_rec (AVLNode k v l r h) []
         \<and> (bst (AVLNode k v l r h) \<longrightarrow> bst t')"
    unfolding R
    by (simp del: bst.simps add: bst_node update_height.simps inorder_visit_items inorder_rec_keys)
       fastforce
qed

theorem rotations_preserve_order_witness:
  "AVLNode (1::int) ''a'' Absent Absent 1 \<noteq> Absent
   \<and> bst (AVLNode (2::int) ''b'' (AVLNode 1 ''a'' Absent Absent 1) (AVLNode 3 ''c'' Absent Absent 1) 2)
   \<and> rotate_right (AVLNode (2::int) ''b'' (AVLNode 1 ''a'' Absent Absent 1) (AVLNode 3 ''c'' Absent Absent 1) 2)
       = Some (AVLNode 1 ''a'' Absent (AVLNode 2 ''b'' Absent (AVLNode 3 ''c'' Absent Absent 1) 2) 3)
   \<and> bst (AVLNode (1::int) ''a'' Absent (AVLNode 2 ''b'' Absent (AVLNode 3 ''c'' Absent Absent 1) 2) 3)
   \<and> rotate_left (AVLNode (2::int) ''b'' (AVLNode 1 ''a'' Absent Absent 1) (AVLNode 3 ''c'' Absent Absent 1) 2)
       = Some (AVLNode 3 ''c'' (AVLNode 2 ''b'' (AVLNode 1 ''a'' Absent Absent 1) Absent 2) Absent 3)
   \<and> bst (AVLNode (3::int) ''c'' (AVLNode 2 ''b'' (AVLNode 1 ''a'' Absent Absent 1) Absent 2) Absent 3)"
  using rotations_preserve_order
    [of "AVLNode (1::int) ''a'' Absent Absent 1" 2 "''b''" "AVLNode 3 ''c'' Absent Absent 1" 2]
  by (simp add: update_height.simps(2))

section \<open>Ordering of the keys, and equal keys\<close>

lemma bst_weak_node:
  "bst_weak (AVLNode k v l r h) \<longleftrightarrow>
     bst_weak l \<and> bst_weak r \<and> (\<forall>a\<in>set (keys_of l). a \<le> k) \<and> (\<forall>b\<in>set (keys_of r). k \<le> b)"
  by (simp add: inorder_rec_keys list_all_iff)

lemma bst_iff_strict_sorted: "bst t \<longleftrightarrow> sorted_wrt (<) (keys_of t)"
proof (induction t)
  case Absent
  show ?case by simp
next
  case (AVLNode k v l r h)
  show ?case unfolding bst_node AVLNode.IH
    by (simp add: sorted_wrt_append) (use less_trans in fastforce)
qed

lemma bst_weak_iff_sorted: "bst_weak t \<longleftrightarrow> sorted (keys_of t)"
proof (induction t)
  case Absent
  show ?case by simp
next
  case (AVLNode k v l r h)
  show ?case unfolding bst_weak_node AVLNode.IH
    by (simp add: sorted_append) (use order_trans in fastforce)
qed

lemma distinct_remove: "mset ys = mset xs - {#x#} \<Longrightarrow> distinct xs \<Longrightarrow> distinct ys"
proof -
  assume "mset ys = mset xs - {#x#}" and d: "distinct xs"
  then have "mset ys = mset (remove1 x xs)" by simp
  from mset_eq_imp_distinct_iff[OF this] d show ?thesis by simp
qed

lemma insert_rec_keys:
  "insert_rec t x y = Some t' \<Longrightarrow> avl t \<Longrightarrow> mset (keys_of t') = add_mset x (mset (keys_of t))"
proof -
  assume a: "insert_rec t x y = Some t'" "avl t"
  from insert_rec_avl[OF a(2), of x y] a(1)
  have "mset (items t') = add_mset (x, y) (mset (items t))" by auto
  then have "image_mset fst (mset (items t')) = image_mset fst (add_mset (x, y) (mset (items t)))"
    by simp
  then show ?thesis by simp
qed

lemma run_distinct:
  "avl (root t) \<Longrightarrow> sorted (keys_of (root t)) \<Longrightarrow> distinct (keys_of (root t)) \<Longrightarrow>
   fresh_inserts t cs \<Longrightarrow> run t cs = Some t' \<Longrightarrow> distinct (keys_of (root t'))"
proof (induction cs arbitrary: t)
  case Nil
  then show ?case by simp
next
  case (Cons c cs)
  show ?case
  proof (cases c)
    case (Insert x y)
    from insert_rec_avl[OF Cons.prems(1), of x y] obtain n where
      n: "insert_rec (root t) x y = Some n" "avl n" by blast
    from insert_rec_sorted[OF n(1) Cons.prems(2)] have s: "sorted (keys_of n)" by simp
    from Cons.prems(4) Insert have "x \<notin> set (keys_of (root t))" by (simp add: inorder_keys)
    with Cons.prems(3) have "distinct (x # keys_of (root t))" by simp
    with mset_eq_imp_distinct_iff[of "keys_of n" "x # keys_of (root t)"]
      insert_rec_keys[OF n(1) Cons.prems(1)]
    have d: "distinct (keys_of n)" by simp
    from Cons.IH[of "t\<lparr>root := n\<rparr>"] n s d Cons.prems(4,5) Insert show ?thesis
      by (simp add: insert_avl_def)
  next
    case (Delete x)
    from delete_rec_avl[OF Cons.prems(1), of x] obtain n where
      n: "delete_rec (root t) x = Some n" "avl n" by blast
    from delete_rec_sorted[OF n(1) Cons.prems(2)] have s: "sorted (keys_of n)"
      and m: "mset (keys_of n) = mset (keys_of (root t)) - {#x#}" by simp_all
    from distinct_remove[OF m Cons.prems(3)] have d: "distinct (keys_of n)" .
    from Cons.IH[of "t\<lparr>root := n\<rparr>"] n s d Cons.prems(4,5) Delete show ?thesis
      by (simp add: delete_def)
  qed
qed

text \<open>
  Claim C2, as amended: after every sequence of \<open>insert\<close> and \<open>delete\<close> calls on a new tree, at
  every node the keys of the left subtree are smaller than or equal to its key and those of
  the right subtree greater than or equal, and \<open>inorder()\<close> is ascending; when no \<open>insert\<close> was
  given a key already in the tree, the keys are unique, the inequalities strict and
  \<open>inorder()\<close> strictly ascending.
\<close>

theorem inorder_ascending_after_calls:
  "\<exists>t. run \<lparr>root = Absent\<rparr> cs = Some t
      \<and> bst_weak (root t) \<and> sorted (inorder t)
      \<and> (fresh_inserts \<lparr>root = Absent\<rparr> cs \<longrightarrow> bst (root t) \<and> sorted_wrt (<) (inorder t))"
proof -
  from reachable_invariant[of cs] obtain t where t: "run \<lparr>root = Absent\<rparr> cs = Some t"
    "avl (root t)" "sorted (keys_of (root t))" by blast
  have "distinct (keys_of (root t))" if "fresh_inserts \<lparr>root = Absent\<rparr> cs"
    using run_distinct[OF _ _ _ that t(1)] by simp
  with t show ?thesis
    by (simp add: inorder_keys bst_weak_iff_sorted bst_iff_strict_sorted strict_sorted_iff)
qed

theorem inorder_ascending_after_calls_witness:
  "fresh_inserts \<lparr>root = Absent\<rparr> [Insert (2::int) ''b'', Insert 1 ''a'', Insert 3 ''c'', Delete 2]
   \<and> run \<lparr>root = Absent\<rparr> [Insert (2::int) ''b'', Insert 1 ''a'', Insert 3 ''c'', Delete 2]
       = Some \<lparr>root = AVLNode 3 ''c'' (AVLNode 1 ''a'' Absent Absent 1) Absent 2\<rparr>
   \<and> bst (AVLNode (3::int) ''c'' (AVLNode 1 ''a'' Absent Absent 1) Absent 2)
   \<and> sorted_wrt (<) (inorder \<lparr>root = AVLNode (3::int) ''c'' (AVLNode 1 ''a'' Absent Absent 1) Absent 2\<rparr>)"
  using inorder_ascending_after_calls
    [of "[Insert (2::int) ''b'', Insert 1 ''a'', Insert 3 ''c'', Delete 2]"]
  by (simp add: insert_avl_def delete_def inorder_def balance.simps(2) update_height.simps(2))

text \<open>
  Inserting the key 5 twice stores it twice: \<open>inorder()\<close> is \<open>[5, 5]\<close>, which is not strictly
  ascending, and the right subtree of the root holds the root's own key.
\<close>

theorem strictly_ascending_counterexample:
  "run \<lparr>root = Absent\<rparr> [Insert (5::int) ''a'', Insert 5 ''b'']
     = Some \<lparr>root = AVLNode 5 ''a'' Absent (AVLNode 5 ''b'' Absent Absent 1) 2\<rparr>
   \<and> inorder \<lparr>root = AVLNode (5::int) ''a'' Absent (AVLNode 5 ''b'' Absent Absent 1) 2\<rparr> = [5, 5]
   \<and> \<not> sorted_wrt (<) (inorder \<lparr>root = AVLNode (5::int) ''a'' Absent (AVLNode 5 ''b'' Absent Absent 1) 2\<rparr>)
   \<and> \<not> bst (AVLNode (5::int) ''a'' Absent (AVLNode 5 ''b'' Absent Absent 1) 2)"
  by (simp add: insert_avl_def inorder_def balance.simps(2) update_height.simps(2))

lemma search_rec_finds:
  "sorted (keys_of t) \<Longrightarrow> x \<in> set (keys_of t) \<Longrightarrow>
   \<exists>v. search_rec t x = Some v \<and> (x, v) \<in> set (items t)"
proof (induction t)
  case Absent
  then show ?case by simp
next
  case (AVLNode k v l r h)
  from AVLNode.prems(1) have sl: "sorted (keys_of l)" and sr: "sorted (keys_of r)"
    and lk: "\<forall>a\<in>set (keys_of l). a \<le> k" and kr: "\<forall>b\<in>set (keys_of r). k \<le> b"
    by (auto simp: sorted_append)
  consider (eq) "x = k" | (lt) "x < k" | (gt) "k < x" by fastforce
  then show ?case
  proof cases
    case eq
    then show ?thesis by simp
  next
    case lt
    with kr AVLNode.prems(2) have "x \<in> set (keys_of l)" by auto
    from AVLNode.IH(1)[OF sl this] lt show ?thesis by auto
  next
    case gt
    with lk AVLNode.prems(2) have "x \<in> set (keys_of r)" by auto
    from AVLNode.IH(2)[OF sr this] gt show ?thesis by auto
  qed
qed

text \<open>
  Claim C1, as amended: on every reachable tree, \<open>insert(k, v1)\<close> followed by \<open>insert(k, v2)\<close>
  does not overwrite. The second call adds a second entry for \<open>k\<close>: \<open>size()\<close> is one more than
  after the first call, \<open>k\<close> occurs once more in \<open>inorder()\<close>, both \<open>(k, v1)\<close> and \<open>(k, v2)\<close> are
  stored, and \<open>search(k)\<close> returns the value of one of the entries stored under \<open>k\<close>.
\<close>

theorem insert_twice_adds_second_entry:
  "\<exists>t0 t1 t2. run \<lparr>root = Absent\<rparr> cs = Some t0
      \<and> insert_avl t0 k v1 = Some t1 \<and> insert_avl t1 k v2 = Some t2
      \<and> size_avl t2 = size_avl t1 + 1
      \<and> count_list (inorder t2) k = count_list (inorder t1) k + 1
      \<and> (k, v1) \<in> set (inorder_visit (root t2) []) \<and> (k, v2) \<in> set (inorder_visit (root t2) [])
      \<and> (\<exists>v. search t2 k = Some v \<and> (k, v) \<in> set (inorder_visit (root t2) []))"
proof -
  from reachable_invariant[of cs] obtain t0 where t0: "run \<lparr>root = Absent\<rparr> cs = Some t0"
    "avl (root t0)" "sorted (keys_of (root t0))" by blast
  from insert_rec_avl[OF t0(2), of k v1] obtain n1 where
    n1: "insert_rec (root t0) k v1 = Some n1" "avl n1"
    "mset (items n1) = add_mset (k, v1) (mset (items (root t0)))" by blast
  from insert_rec_sorted[OF n1(1) t0(3)] have s1: "sorted (keys_of n1)" by simp
  from insert_rec_avl[OF n1(2), of k v2] obtain n2 where
    n2: "insert_rec n1 k v2 = Some n2" "avl n2"
    "mset (items n2) = add_mset (k, v2) (mset (items n1))" by blast
  from insert_rec_sorted[OF n2(1) s1] have s2: "sorted (keys_of n2)"
    and k2: "k \<in> set (keys_of n2)" by simp_all
  let ?t1 = "t0\<lparr>root := n1\<rparr>" and ?t2 = "t0\<lparr>root := n2\<rparr>"
  have i1: "insert_avl t0 k v1 = Some ?t1" using n1(1) by (simp add: insert_avl_def)
  have i2: "insert_avl ?t1 k v2 = Some ?t2" using n2(1) by (simp add: insert_avl_def)
  have "length (items n2) = length (items n1) + 1"
    using n2(3) by (metis size_mset size_add_mset Suc_eq_plus1)
  then have sz: "size_avl ?t2 = size_avl ?t1 + 1"
    by (simp add: size_avl_def size_rec_items)
  have "count_list (keys_of n2) k = count (mset (keys_of n2)) k"
    by (simp only: count_mset)
  also have "\<dots> = count (add_mset k (mset (keys_of n1))) k"
    by (simp only: insert_rec_keys[OF n2(1) n1(2)])
  also have "\<dots> = count_list (keys_of n1) k + 1"
    by (simp add: count_mset del: mset_map)
  finally have cnt: "count_list (inorder ?t2) k = count_list (inorder ?t1) k + 1"
    by (simp add: inorder_keys)
  have "set (items n2) = insert (k, v2) (insert (k, v1) (set (items (root t0))))"
    using n1(3) n2(3) by (metis set_mset_mset set_mset_add_mset_insert)
  then have mem: "(k, v1) \<in> set (inorder_visit (root ?t2) [])"
    "(k, v2) \<in> set (inorder_visit (root ?t2) [])"
    by (simp_all add: inorder_visit_items)
  from search_rec_finds[OF s2 k2]
  have "\<exists>v. search ?t2 k = Some v \<and> (k, v) \<in> set (inorder_visit (root ?t2) [])"
    by (simp add: search_def inorder_visit_items)
  with t0(1) i1 i2 sz cnt mem show ?thesis by blast
qed

text \<open>
  On the empty tree, \<open>insert(5, "a")\<close> then \<open>insert(5, "b")\<close>: \<open>search(5)\<close> returns \<open>"a"\<close>, not
  \<open>"b"\<close>, and the size grows from 1 to 2.
\<close>

theorem insert_twice_counterexample:
  "insert_avl \<lparr>root = Absent\<rparr> (5::int) ''a'' = Some \<lparr>root = AVLNode 5 ''a'' Absent Absent 1\<rparr>
   \<and> insert_avl \<lparr>root = AVLNode (5::int) ''a'' Absent Absent 1\<rparr> 5 ''b''
       = Some \<lparr>root = AVLNode 5 ''a'' Absent (AVLNode 5 ''b'' Absent Absent 1) 2\<rparr>
   \<and> search \<lparr>root = AVLNode (5::int) ''a'' Absent (AVLNode 5 ''b'' Absent Absent 1) 2\<rparr> 5 = Some ''a''
   \<and> search \<lparr>root = AVLNode (5::int) ''a'' Absent (AVLNode 5 ''b'' Absent Absent 1) 2\<rparr> 5 \<noteq> Some ''b''
   \<and> size_avl \<lparr>root = AVLNode (5::int) ''a'' Absent Absent 1\<rparr> = 1
   \<and> size_avl \<lparr>root = AVLNode (5::int) ''a'' Absent (AVLNode 5 ''b'' Absent Absent 1) 2\<rparr> = 2"
  by (simp add: insert_avl_def search_def size_avl_def balance.simps(2) update_height.simps(2))

section \<open>Deleting a node with two children\<close>

lemma filter_keys_id: "\<forall>p\<in>set xs. fst p \<noteq> x \<Longrightarrow> filter (\<lambda>p. fst p \<noteq> x) xs = xs"
  by (induction xs) auto

lemma delete_rec_strict:
  "delete_rec t x = Some t' \<Longrightarrow> sorted_wrt (<) (keys_of t) \<Longrightarrow>
   items t' = filter (\<lambda>p. fst p \<noteq> x) (items t)"
proof (induction t arbitrary: t' x)
  case Absent
  then show ?case by auto
next
  case (AVLNode k v l r h)
  from AVLNode.prems(2) have sl: "sorted_wrt (<) (keys_of l)" and sr: "sorted_wrt (<) (keys_of r)"
    and lk: "\<forall>p\<in>set (items l). fst p < k" and kr: "\<forall>p\<in>set (items r). k < fst p"
    by (auto simp: sorted_wrt_append)
  consider (lt) "x < k" | (gt) "k < x" | (eq) "x = k" by fastforce
  then show ?case
  proof cases
    case lt
    from AVLNode.prems(1)[unfolded delete_rec_lt[OF lt] bind_eq_Some_conv]
    obtain l' where l': "delete_rec l x = Some l'"
      and t': "(update_height (AVLNode k v l' r h) \<bind> balance) = Some t'"
      unfolding bind_eq_Some_conv by blast
    have "\<forall>p\<in>set (items r). fst p \<noteq> x" using kr lt by auto
    from filter_keys_id[OF this] AVLNode.IH(1)[OF l' sl] rebalance_items[OF t'] lt
    show ?thesis by simp
  next
    case gt
    from AVLNode.prems(1)[unfolded delete_rec_gt[OF gt] bind_eq_Some_conv]
    obtain r' where r': "delete_rec r x = Some r'"
      and t': "(update_height (AVLNode k v l r' h) \<bind> balance) = Some t'"
      unfolding bind_eq_Some_conv by blast
    have "\<forall>p\<in>set (items l). fst p \<noteq> x" using lk gt by auto
    from filter_keys_id[OF this] AVLNode.IH(2)[OF r' sr] rebalance_items[OF t'] gt
    show ?thesis by simp
  next
    case eq
    have fl: "filter (\<lambda>p. fst p \<noteq> k) (items l) = items l"
      using lk by (intro filter_keys_id) auto
    have fr: "filter (\<lambda>p. fst p \<noteq> k) (items r) = items r"
      using kr by (intro filter_keys_id) auto
    show ?thesis
    proof (cases "l = Absent")
      case True
      with eq AVLNode.prems(1) fr show ?thesis by simp
    next
      case lne: False
      show ?thesis
      proof (cases "r = Absent")
        case True
        with eq lne AVLNode.prems(1) fl show ?thesis by simp
      next
        case rne: False
        from min_value_node_hd[OF rne] obtain m where m: "min_value_node r = Some m"
          and hd: "items r = (key m, val m) # tl (items r)" by blast
        from AVLNode.prems(1)[unfolded eq delete_rec_two_children[OF lne rne] m]
        obtain r' where r': "delete_rec r (key m) = Some r'"
          and t': "(update_height (AVLNode (key m) (val m) l r' h) \<bind> balance) = Some t'"
          unfolding bind_eq_Some_conv by auto
        from sr hd have "sorted_wrt (<) (key m # map fst (tl (items r)))"
          by (metis fst_conv list.simps(9))
        then have "\<forall>p\<in>set (tl (items r)). fst p \<noteq> key m" by auto
        from filter_keys_id[OF this] have "filter (\<lambda>p. fst p \<noteq> key m) (items r) = tl (items r)"
          by (subst hd) simp
        with AVLNode.IH(2)[OF r' sr] have "items r' = tl (items r)" by simp
        with rebalance_items[OF t'] hd have "items t' = items l @ items r" by simp
        with eq fl fr show ?thesis by simp
      qed
    qed
  qed
qed

text \<open>
  While every key is stored once, the two-children case does what it sets out to do: the
  leftmost node \<open>m\<close> of the right subtree is the in-order successor, deleting its key from the
  right subtree removes exactly that entry, and the node is rebalanced with \<open>m\<close>'s key and
  value over the old left subtree and the reduced right subtree. The tree built from
  \<open>[5,3,8,1,4,7,9]\<close> has, after \<open>delete(3)\<close>, the inorder sequence \<open>[1,4,5,7,8,9]\<close> and is balanced.
\<close>

lemma delete_two_children_unique_keys:
  assumes "bst (AVLNode k v l r h)" and "coherent (AVLNode k v l r h)"
    and "balanced (AVLNode k v l r h)" and "l \<noteq> Absent" and "r \<noteq> Absent"
  shows "(\<exists>m r' t'. min_value_node r = Some m
            \<and> hd (inorder_visit r []) = (key m, val m)
            \<and> delete_rec r (key m) = Some r'
            \<and> inorder_visit r' [] = tl (inorder_visit r [])
            \<and> (update_height (AVLNode (key m) (val m) l r' h) \<bind> balance) = Some t'
            \<and> delete_rec (AVLNode k v l r h) k = Some t'
            \<and> inorder_visit t' [] = inorder_visit l [] @ inorder_visit r [])
         \<and> (init [(5::int, ()), (3, ()), (8, ()), (1, ()), (4, ()), (7, ()), (9, ())]
              \<bind> (\<lambda>t. delete t 3) \<bind> (\<lambda>t. Some (inorder t, balanced (root t))))
            = Some ([1, 4, 5, 7, 8, 9], True)"
proof
  from assms(2,3) have a: "avl (AVLNode k v l r h)" by (simp only: avl_iff)
  then have ar: "avl r" by simp
  from assms(1) have s: "sorted_wrt (<) (keys_of (AVLNode k v l r h))"
    by (simp only: bst_iff_strict_sorted)
  then have sr: "sorted_wrt (<) (keys_of r)" by (simp add: sorted_wrt_append)
  from min_value_node_hd[OF assms(5)] obtain m where m: "min_value_node r = Some m"
    and hd: "items r = (key m, val m) # tl (items r)" by blast
  from delete_rec_avl[OF a, of k] obtain t' where t': "delete_rec (AVLNode k v l r h) k = Some t'"
    by blast
  from t'[unfolded delete_rec_two_children[OF assms(4,5)] m]
  obtain r' where r': "delete_rec r (key m) = Some r'"
    and reb: "(update_height (AVLNode (key m) (val m) l r' h) \<bind> balance) = Some t'"
    unfolding bind_eq_Some_conv by auto
  have "sorted_wrt (<) (key m # map fst (tl (items r)))"
    using sr hd by (metis fst_conv list.simps(9))
  then have "\<forall>p\<in>set (tl (items r)). fst p \<noteq> key m" by auto
  from filter_keys_id[OF this] have "filter (\<lambda>p. fst p \<noteq> key m) (items r) = tl (items r)"
    by (subst hd) simp
  with delete_rec_strict[OF r' sr] have ir: "items r' = tl (items r)" by simp
  have "hd (items r) = (key m, val m)" by (subst hd) simp
  moreover have "items t' = items l @ items r"
    using rebalance_items[OF reb] ir hd by simp
  ultimately show "\<exists>m r' t'. min_value_node r = Some m
            \<and> hd (inorder_visit r []) = (key m, val m)
            \<and> delete_rec r (key m) = Some r'
            \<and> inorder_visit r' [] = tl (inorder_visit r [])
            \<and> (update_height (AVLNode (key m) (val m) l r' h) \<bind> balance) = Some t'
            \<and> delete_rec (AVLNode k v l r h) k = Some t'
            \<and> inorder_visit t' [] = inorder_visit l [] @ inorder_visit r []"
    using m r' reb t' ir by (auto simp: inorder_visit_items)
next
  show "(init [(5::int, ()), (3, ()), (8, ()), (1, ()), (4, ()), (7, ()), (9, ())]
              \<bind> (\<lambda>t. delete t 3) \<bind> (\<lambda>t. Some (inorder t, balanced (root t))))
            = Some ([1, 4, 5, 7, 8, 9], True)"
    by (simp add: init_def insert_avl_def delete_def inorder_def
        balance.simps(2) update_height.simps(2))
qed

text \<open>
  Claim C6: deleting a key whose node has two children replaces that node's key and value
  with those of its in-order successor, the minimum of the right subtree, and then removes
  the successor node from the right subtree. The code looks the successor up again by its
  key (\<open>_delete(node._right, temp._key)\<close>), and \<open>insert\<close> stores an equal key a second time, so
  the removal misses the successor when its key is repeated. The calls \<open>insert(3, "c")\<close>,
  \<open>insert(7, "x")\<close>, \<open>insert(7, "y")\<close>, \<open>insert(7, "z")\<close>, \<open>insert(7, "w")\<close> build a coherent and
  balanced tree whose root \<open>(7, "x")\<close> has two children; the leftmost node of its right
  subtree is \<open>(7, "y")\<close>. After \<open>delete(7)\<close> the root carries \<open>(7, "y")\<close>, but the right subtree
  still holds \<open>(7, "y")\<close> and has lost \<open>(7, "z")\<close> instead: its entries are not those that
  remain when the successor is taken out.
\<close>

theorem delete_repeated_key_keeps_successor:
  "run \<lparr>root = Absent\<rparr>
      [Insert (3::int) ''c'', Insert 7 ''x'', Insert 7 ''y'', Insert 7 ''z'', Insert 7 ''w'']
     = Some \<lparr>root = AVLNode 7 ''x'' (AVLNode 3 ''c'' Absent Absent 1)
               (AVLNode 7 ''z'' (AVLNode 7 ''y'' Absent Absent 1) (AVLNode 7 ''w'' Absent Absent 1) 2) 3\<rparr>
   \<and> coherent (AVLNode (7::int) ''x'' (AVLNode 3 ''c'' Absent Absent 1)
               (AVLNode 7 ''z'' (AVLNode 7 ''y'' Absent Absent 1) (AVLNode 7 ''w'' Absent Absent 1) 2) 3)
   \<and> balanced (AVLNode (7::int) ''x'' (AVLNode 3 ''c'' Absent Absent 1)
               (AVLNode 7 ''z'' (AVLNode 7 ''y'' Absent Absent 1) (AVLNode 7 ''w'' Absent Absent 1) 2) 3)
   \<and> min_value_node (AVLNode (7::int) ''z'' (AVLNode 7 ''y'' Absent Absent 1) (AVLNode 7 ''w'' Absent Absent 1) 2)
       = Some (AVLNode 7 ''y'' Absent Absent 1)
   \<and> delete \<lparr>root = AVLNode (7::int) ''x'' (AVLNode 3 ''c'' Absent Absent 1)
               (AVLNode 7 ''z'' (AVLNode 7 ''y'' Absent Absent 1) (AVLNode 7 ''w'' Absent Absent 1) 2) 3\<rparr> 7
       = Some \<lparr>root = AVLNode 7 ''y'' (AVLNode 3 ''c'' Absent Absent 1)
               (AVLNode 7 ''w'' (AVLNode 7 ''y'' Absent Absent 1) Absent 2) 3\<rparr>
   \<and> inorder_visit (AVLNode (7::int) ''z'' (AVLNode 7 ''y'' Absent Absent 1) (AVLNode 7 ''w'' Absent Absent 1) 2) []
       = [(7, ''y''), (7, ''z''), (7, ''w'')]
   \<and> inorder_visit (AVLNode (7::int) ''w'' (AVLNode 7 ''y'' Absent Absent 1) Absent 2) []
       = [(7, ''y''), (7, ''w'')]
   \<and> inorder_visit (AVLNode (7::int) ''w'' (AVLNode 7 ''y'' Absent Absent 1) Absent 2) []
       \<noteq> tl (inorder_visit (AVLNode (7::int) ''z'' (AVLNode 7 ''y'' Absent Absent 1)
                (AVLNode 7 ''w'' Absent Absent 1) 2) [])"
  by (simp add: insert_avl_def delete_def balance.simps(2) update_height.simps(2))

section \<open>Breadth-first traversal\<close>

lemma bforder_loop_append: "bforder_loop q (acc @ keys) = acc @ bforder_loop q keys"
  by (induction q keys arbitrary: acc rule: bforder_loop.induct) (simp_all flip: append_assoc)

lemma bforder_loop_acc: "bforder_loop q keys = keys @ bforder_loop q []"
  using bforder_loop_append[of q keys "[]"] by simp

lemma bforder_loop_level:
  "bforder_loop (ts @ cs) [] = forest_at ts 0 @ bforder_loop (cs @ children ts) []"
proof (induction ts arbitrary: cs)
  case Nil
  show ?case by simp
next
  case (Cons n ts)
  show ?case
  proof (cases n)
    case Absent
    with Cons.IH[of cs] show ?thesis by simp
  next
    case (AVLNode k v l r h)
    have "bforder_loop ((n # ts) @ cs) [] = k # bforder_loop (ts @ (cs @ [l, r])) []"
      using AVLNode bforder_loop_acc[of "ts @ cs @ [l, r]" "[k]"] by simp
    with Cons.IH[of "cs @ [l, r]"] AVLNode show ?thesis by simp
  qed
qed

lemma forest_at_Suc: "forest_at q (Suc d) = forest_at (children q) d"
  by (induction q rule: children.induct) simp_all

lemma forest_levels_children: "forest_levels (children q) = forest_levels q - 1"
  by (induction q rule: children.induct) auto

lemma bforder_loop_flat: "forest_levels q = 0 \<Longrightarrow> bforder_loop q [] = []"
proof (induction q)
  case Nil
  show ?case by simp
next
  case (Cons n q)
  then show ?case by (cases n) auto
qed

lemma bforder_loop_forest:
  "forest_levels q = n \<Longrightarrow> bforder_loop q [] = concat (map (forest_at q) [0..<n])"
proof (induction n arbitrary: q)
  case 0
  then show ?case by (simp add: bforder_loop_flat)
next
  case (Suc n)
  have "forest_levels (children q) = n"
    using Suc.prems by (simp add: forest_levels_children)
  from Suc.IH[OF this]
  have rest: "bforder_loop (children q) [] = concat (map (\<lambda>d. forest_at q (Suc d)) [0..<n])"
    by (simp add: forest_at_Suc)
  have "[0..<Suc n] = 0 # map Suc [0..<n]"
    by (simp only: map_Suc_upt upt_conv_Cons[OF zero_less_Suc])
  then have "concat (map (forest_at q) [0..<Suc n])
      = forest_at q 0 @ concat (map (\<lambda>d. forest_at q (Suc d)) [0..<n])"
    by (simp only: list.map concat.simps map_map o_def)
  moreover have "bforder_loop q [] = forest_at q 0 @ bforder_loop (children q) []"
    using bforder_loop_level[of q "[]"] by simp
  ultimately show ?case by (simp only: rest)
qed

text \<open>
  Claim C8: \<open>bforder()\<close> returns the keys ordered by depth and from left to right within each
  depth. Its queue is first in, first out; an absent child in the queue is dropped without
  output and without being expanded, a present node gives its key and appends both child
  slots. On the tree with root 20, left child 10 and right child 30 the result is
  \<open>[20, 10, 30]\<close>.
\<close>

theorem bforder_is_level_order:
  "bforder t = level_order_spec (root t)
   \<and> bforder_loop (Absent # q) keys = bforder_loop q keys
   \<and> bforder_loop (AVLNode k v l r h # q) keys = bforder_loop (q @ [l, r]) (keys @ [k])
   \<and> bforder \<lparr>root = AVLNode (20::int) () (AVLNode 10 () Absent Absent 1)
                 (AVLNode 30 () Absent Absent 1) 2\<rparr> = [20, 10, 30]"
proof (intro conjI)
  have "forest_at [root t] = keys_at_depth (root t)" by (rule ext) simp
  with bforder_loop_forest[of "[root t]" "levels (root t)"]
  show "bforder t = level_order_spec (root t)"
    by (simp add: bforder_def level_order_spec_def)
  show "bforder_loop (Absent # q) keys = bforder_loop q keys"
    by (rule bforder_loop.simps)
  show "bforder_loop (AVLNode k v l r h # q) keys = bforder_loop (q @ [l, r]) (keys @ [k])"
    by (rule bforder_loop.simps)
  show "bforder \<lparr>root = AVLNode (20::int) () (AVLNode 10 () Absent Absent 1)
                 (AVLNode 30 () Absent Absent 1) 2\<rparr> = [20, 10, 30]"
    by (simp add: bforder_def)
qed

end
